theory Spec2Isabelle
  imports Complex_Main
begin

section \<open>Arrays and errors\<close>

text \<open>
  The notebook works on NumPy arrays. An array is modelled by its shape together with its
  rows as nested lists; \<open>wf2\<close> and \<open>wf3\<close> say that the rows agree with the shape. The
  shape is kept apart from the rows because NumPy checks an index against the shape, also
  when the array has no row at all.
\<close>

datatype py_error = IndexError | ValueError

record 'a ndarray2 =
  shape2 :: "nat \<times> nat"
  data2 :: "'a list list"

record 'a ndarray3 =
  shape3 :: "nat \<times> nat \<times> nat"
  data3 :: "'a list list list"

definition wf2 :: "'a ndarray2 \<Rightarrow> bool" where
  "wf2 A = (length (data2 A) = fst (shape2 A) \<and>
            (\<forall>r \<in> set (data2 A). length r = snd (shape2 A)))"

definition wf3 :: "'a ndarray3 \<Rightarrow> bool" where
  "wf3 A = (length (data3 A) = fst (shape3 A) \<and>
            (\<forall>r \<in> set (data3 A). length r = fst (snd (shape3 A)) \<and>
               (\<forall>p \<in> set r. length p = snd (snd (shape3 A)))))"

text \<open>\<open>len(a)\<close> of an array is the size of its first axis.\<close>

definition len2 :: "'a ndarray2 \<Rightarrow> nat" where
  "len2 A = fst (shape2 A)"

section \<open>Removing padding from the predictions\<close>

text \<open>
  \<^verbatim>\<open>
  def reshape_y_pred(y_true, y_pred):
      n_samples = len(y_true)
      return y_pred[:n_samples, :, 1]
  \<close>
  The slice \<open>:n_samples\<close> keeps at most \<open>n_samples\<close> rows, \<open>:\<close> keeps the second axis, and
  the index \<open>1\<close> on the third axis raises IndexError when that axis has fewer than two
  entries.
\<close>

definition reshape_y_pred :: "'b ndarray2 \<Rightarrow> 'a ndarray3 \<Rightarrow> py_error + 'a ndarray2" where
  "reshape_y_pred y_true y_pred =
     (let n_samples = len2 y_true in
      if snd (snd (shape3 y_pred)) \<le> 1 then Inl IndexError
      else Inr \<lparr>shape2 = (min n_samples (fst (shape3 y_pred)), fst (snd (shape3 y_pred))),
                data2 = map (map (\<lambda>p. p ! 1)) (take n_samples (data3 y_pred))\<rparr>)"

section \<open>Molecule graphs and the batched graph\<close>

text \<open>
  Modelled from the spec: the class \<open>ConvMol\<close> of the library (\<open>deepchem.feat.mol_graphs\<close>)
  is not part of the notebook. The spec describes a molecule as a graph of atoms and bonds
  with one feature vector per atom and, for each atom, the indices of its bonded neighbours.
  The type \<open>'f\<close> of a feature vector is left open.
\<close>

record 'f ConvMol =
  atom_features :: "'f list"
  adj_list :: "nat list list"

text \<open>
  Modelled from the spec: the feature vectors that the featurizer of the library produces
  have a fixed per-atom width. The notebook gives the width: \<open>atom_features\<close> holds a
  feature vector of length 75 for each atom. The datasets of the notebook hold molecules
  with feature vectors of this type.
\<close>

typedef atom_vec = "{v :: real list. length v = 75}"
  by (rule exI [of _ "replicate 75 0"]) simp

setup_lifting type_definition_atom_vec

lift_definition width :: "atom_vec \<Rightarrow> nat" is length .

lift_definition const_vec :: "real \<Rightarrow> atom_vec" is "\<lambda>x. replicate 75 x"
  by simp

text \<open>
  Modelled from the spec: the largest node degree that has a bucket. The notebook does not
  pass it; it mirrors the library's value in \<open>range(0, 10 + 1)\<close>.
\<close>

definition max_deg :: nat where
  "max_deg = 10"

definition num_atoms :: "'f ConvMol \<Rightarrow> nat" where
  "num_atoms m = length (atom_features m)"

definition degree :: "'f ConvMol \<Rightarrow> nat \<Rightarrow> nat" where
  "degree m a = length (adj_list m ! a)"

text \<open>
  Modelled from the spec: a well-formed molecule graph. Every atom has a neighbour list,
  every neighbour is an atom of the same molecule, and no atom has more neighbours than
  the largest degree bucket. Anything else is a malformed input graph.
\<close>

definition wf_mol :: "'f ConvMol \<Rightarrow> bool" where
  "wf_mol m = (length (adj_list m) = length (atom_features m) \<and>
               (\<forall>nbrs \<in> set (adj_list m). length nbrs \<le> max_deg \<and>
                  (\<forall>j \<in> set nbrs. j < length (atom_features m))))"

text \<open>
  Modelled from the spec: the batched molecular graph (\<open>MultiConvMol\<close>), with the four
  parts the notebook reads from it: the atom features as one sequence, the degree slice
  (one row \<open>[start, size]\<close> per degree), the membership of each atom, and one adjacency
  list per degree.
\<close>

record 'f MultiConvMol =
  get_atom_features :: "'f list"
  deg_slice :: "nat list list"
  membership :: "nat list"
  get_deg_adjacency_lists :: "nat list list list"

text \<open>
  Modelled from the spec: \<open>ConvMol.agglomerate_mols\<close>, which the notebook calls and the
  library defines. The spec gives its steps: concatenate the feature matrices, compute
  offsets, bucket atoms by degree, remap neighbour indices to batch-global indices; and
  the degree slice gives, for each degree, the contiguous range of the atoms of that
  degree. So the atoms of the batch are ordered by degree, within a degree by molecule,
  within a molecule by their local index.
\<close>

definition atoms_with_deg :: "'f ConvMol \<Rightarrow> nat \<Rightarrow> nat list" where
  "atoms_with_deg m d = filter (\<lambda>a. degree m a = d) [0..<num_atoms m]"

definition deg_block :: "'f ConvMol list \<Rightarrow> nat \<Rightarrow> (nat \<times> nat) list" where
  "deg_block mols d =
     concat (map (\<lambda>k. map (Pair k) (atoms_with_deg (mols ! k) d)) [0..<length mols])"

definition batch_order :: "'f ConvMol list \<Rightarrow> (nat \<times> nat) list" where
  "batch_order mols = concat (map (deg_block mols) [0..<Suc max_deg])"

definition deg_size :: "'f ConvMol list \<Rightarrow> nat \<Rightarrow> nat" where
  "deg_size mols d = length (deg_block mols d)"

definition deg_start :: "'f ConvMol list \<Rightarrow> nat \<Rightarrow> nat" where
  "deg_start mols d = sum_list (map (deg_size mols) [0..<d])"

definition mol_start :: "'f ConvMol list \<Rightarrow> nat \<Rightarrow> nat \<Rightarrow> nat" where
  "mol_start mols d k =
     sum_list (map (\<lambda>j. length (atoms_with_deg (mols ! j) d)) [0..<k])"

definition deg_rank :: "'f ConvMol \<Rightarrow> nat \<Rightarrow> nat" where
  "deg_rank m a = length (filter (\<lambda>a'. degree m a' = degree m a) [0..<a])"

text \<open>
  The batch-global index of atom \<open>a\<close> of molecule \<open>k\<close>: the start of its degree block,
  plus the offset of its molecule inside that block, plus its rank among the atoms of
  that degree in its molecule.
\<close>

definition to_final_id :: "'f ConvMol list \<Rightarrow> nat \<Rightarrow> nat \<Rightarrow> nat" where
  "to_final_id mols k a =
     deg_start mols (degree (mols ! k) a) + mol_start mols (degree (mols ! k) a) k +
     deg_rank (mols ! k) a"

definition agglomerate :: "'f ConvMol list \<Rightarrow> 'f MultiConvMol" where
  "agglomerate mols =
     \<lparr>get_atom_features = map (\<lambda>(k, a). atom_features (mols ! k) ! a) (batch_order mols),
      deg_slice = map (\<lambda>d. [deg_start mols d, deg_size mols d]) [0..<Suc max_deg],
      membership = map fst (batch_order mols),
      get_deg_adjacency_lists =
        map (\<lambda>d. map (\<lambda>(k, a). map (to_final_id mols k) (adj_list (mols ! k) ! a))
                    (deg_block mols d))
          [0..<Suc max_deg]\<rparr>"

text \<open>
  Modelled from the spec: the assembly has no failure mode beyond malformed input graphs,
  so it raises exactly when some molecule of the batch is malformed. The theorems below
  are about the graph it returns when it returns one.
\<close>

definition agglomerate_mols :: "'f ConvMol list \<Rightarrow> py_error + 'f MultiConvMol" where
  "agglomerate_mols mols =
     (if list_all wf_mol mols then Inr (agglomerate mols) else Inl ValueError)"

text \<open>Row \<open>i\<close> lies in the slice \<open>[start, size]\<close>.\<close>

definition in_slice :: "nat list \<Rightarrow> nat \<Rightarrow> bool" where
  "in_slice row i = (row ! 0 \<le> i \<and> i < row ! 0 + row ! 1)"

text \<open>
  The spec's account of the assembly, as a predicate on a batched graph \<open>B\<close>, for
  comparison with \<open>agglomerate_mols\<close>:
  \<^item> concatenation: \<open>B\<close> has as many atoms as the molecules together, and atom \<open>a\<close> of
    molecule \<open>k\<close> is found, with its feature vector and its molecule, at the batch-global
    index \<open>to_final_id mols k a\<close>;
  \<^item> offsets and buckets: there is one slice \<open>[start, size]\<close> and one adjacency list per
    degree from 0 to the largest; the slice of a degree starts where the slices of the
    smaller degrees end, its size is the number of atoms of that degree, it holds the
    index of every atom of that degree, and the adjacency list has one row per atom of
    the slice;
  \<^item> remapping: the row of an atom holds its neighbours, each replaced by its batch-global
    index.
\<close>

definition assembled_from :: "'f ConvMol list \<Rightarrow> 'f MultiConvMol \<Rightarrow> bool" where
  "assembled_from mols B =
     (length (get_atom_features B) = sum_list (map num_atoms mols) \<and>
      length (membership B) = sum_list (map num_atoms mols) \<and>
      length (deg_slice B) = Suc max_deg \<and>
      length (get_deg_adjacency_lists B) = Suc max_deg \<and>
      (\<forall>d \<in> {..max_deg}.
         deg_slice B ! d = [deg_start mols d, deg_size mols d] \<and>
         length (get_deg_adjacency_lists B ! d) = deg_size mols d) \<and>
      (\<forall>k \<in> {..<length mols}. \<forall>a \<in> {..<num_atoms (mols ! k)}.
         to_final_id mols k a < sum_list (map num_atoms mols) \<and>
         get_atom_features B ! to_final_id mols k a = atom_features (mols ! k) ! a \<and>
         membership B ! to_final_id mols k a = k \<and>
         in_slice (deg_slice B ! degree (mols ! k) a) (to_final_id mols k a) \<and>
         get_deg_adjacency_lists B ! degree (mols ! k) a !
           (to_final_id mols k a - deg_start mols (degree (mols ! k) a)) =
           map (to_final_id mols k) (adj_list (mols ! k) ! a)))"

section \<open>The declared inputs of the network\<close>

text \<open>
  \<^verbatim>\<open>
  atom_features = Input(shape=(75,))
  degree_slice = Input(shape=(2,), dtype=tf.int32)
  membership = Input(shape=tuple(), dtype=tf.int32)
  deg_adjs = []
  for i in range(0, 10 + 1):
      deg_adj = Input(shape=(i+1,), dtype=tf.int32)
      deg_adjs.append(deg_adj)
  ...
  inputs = [atom_features, degree_slice, membership] + deg_adjs
  \<close>
  An \<open>Input\<close> layer is its per-row shape and its dtype (float32 when none is given). The
  list \<open>inputs\<close> of the notebook is \<open>keras_inputs\<close> here, since the generator has a local
  variable of the same name; the first three layers carry the suffix \<open>_in\<close>, since their
  names are fields of the graph records.
\<close>

datatype dtype = Float32 | Int32

type_synonym input_layer = "nat list \<times> dtype"

definition atom_features_in :: input_layer where
  "atom_features_in = ([75], Float32)"

definition degree_slice_in :: input_layer where
  "degree_slice_in = ([2], Int32)"

definition membership_in :: input_layer where
  "membership_in = ([], Int32)"

definition deg_adjs :: "input_layer list" where
  "deg_adjs = map (\<lambda>i. ([i + 1], Int32)) [0..<10 + 1]"

definition keras_inputs :: "input_layer list" where
  "keras_inputs = [atom_features_in, degree_slice_in, membership_in] @ deg_adjs"

text \<open>
  The arrays the generator feeds: a float matrix (one feature vector per row), an integer
  matrix or an integer vector.
\<close>

datatype 'f array = FloatMat "'f list" | IntMat "nat list list" | IntVec "nat list"

section \<open>The minibatch generator\<close>

text \<open>
  \<^verbatim>\<open>
  def data_generator(dataset, epochs=1, predict=False, pad_batches=True):
    for epoch in range(epochs):
      for ind, (X_b, y_b, w_b, ids_b) in enumerate(
          dataset.iterbatches(
              batch_size, pad_batches=pad_batches, deterministic=True)):
        multiConvMol = ConvMol.agglomerate_mols(X_b)
        inputs = [multiConvMol.get_atom_features(), multiConvMol.deg_slice,
                  np.array(multiConvMol.membership)]
        for i in range(1, len(multiConvMol.get_deg_adjacency_lists())):
          inputs.append(multiConvMol.get_deg_adjacency_lists()[i])
        labels = [to_one_hot(y_b.flatten(), 2).reshape(-1, n_tasks, 2)]
        weights = [w_b]
        yield (inputs, labels, weights)
  \<close>
  A batch is the tuple that \<open>iterbatches\<close> produces. The labels \<open>y_b\<close> hold a class index
  for every sample and task. The counter \<open>ind\<close> of \<open>enumerate\<close> is not used. \<open>batch_size\<close>
  and \<open>n_tasks\<close> are globals of the notebook: \<open>batch_size = 50\<close>, and \<open>n_tasks\<close> is the
  number of tasks of the loaded dataset, a parameter here.
\<close>

record ('f, 'w, 'i) batch =
  X_b :: "'f ConvMol list"
  y_b :: "nat ndarray2"
  w_b :: "'w ndarray2"
  ids_b :: "'i list"

definition batch_size :: nat where
  "batch_size = 50"

text \<open>
  The state of a running generator: the dataset it was given and its local variables
  \<open>multiConvMol\<close> and \<open>inputs\<close>, which live on between two yields. \<open>labels\<close> and
  \<open>weights\<close> are bound once in the body and yielded at once.
\<close>

record ('ds, 'f) gen_state =
  dataset :: 'ds
  multiConvMol :: "'f MultiConvMol option"
  inputs :: "'f array list"

text \<open>Indexing a list at a non-negative index raises IndexError out of range.\<close>

definition py_get :: "'a list \<Rightarrow> nat \<Rightarrow> py_error + 'a" where
  "py_get xs i = (if i < length xs then Inr (xs ! i) else Inl IndexError)"

text \<open>The inner loop: \<open>inputs.append(multiConvMol.get_deg_adjacency_lists()[i])\<close> for each \<open>i\<close>.\<close>

fun append_deg_adjs ::
  "'f MultiConvMol \<Rightarrow> nat list \<Rightarrow> ('ds, 'f) gen_state \<Rightarrow> py_error + ('ds, 'f) gen_state" where
  "append_deg_adjs m [] s = Inr s"
| "append_deg_adjs m (i # is) s =
     (case py_get (get_deg_adjacency_lists m) i of
        Inl e \<Rightarrow> Inl e
      | Inr adj \<Rightarrow> append_deg_adjs m is (s\<lparr>inputs := inputs s @ [IntMat adj]\<rparr>))"

text \<open>The first four statements of the loop body, which build \<open>inputs\<close> from \<open>X_b\<close>.\<close>

definition assemble_inputs ::
  "('ds, 'f) gen_state \<Rightarrow> 'f ConvMol list \<Rightarrow> py_error + ('ds, 'f) gen_state" where
  "assemble_inputs s X =
     (case agglomerate_mols X of
        Inl e \<Rightarrow> Inl e
      | Inr m \<Rightarrow>
          append_deg_adjs m [1..<length (get_deg_adjacency_lists m)]
            (s\<lparr>multiConvMol := Some m,
               inputs := [FloatMat (get_atom_features m), IntMat (deg_slice m),
                          IntVec (membership m)]\<rparr>))"

text \<open>\<open>y_b.flatten()\<close>: the entries of the array in row-major order, as a new vector.\<close>

definition flatten :: "'a ndarray2 \<Rightarrow> 'a list" where
  "flatten A = concat (data2 A)"

text \<open>
  Modelled from the spec: \<open>to_one_hot\<close> of the library (\<open>deepchem.metrics\<close>), which the
  notebook imports. For a vector of class indices it gives the float matrix with one row
  per entry, holding 1 in the column of the class and 0 elsewhere; a class index beyond
  the number of classes is out of range. Floats are modelled as reals.
\<close>

definition one_hot_row :: "nat \<Rightarrow> nat \<Rightarrow> real list" where
  "one_hot_row n_classes c = map (\<lambda>j. if j = c then 1 else 0) [0..<n_classes]"

definition to_one_hot :: "nat list \<Rightarrow> nat \<Rightarrow> py_error + real ndarray2" where
  "to_one_hot y n_classes =
     (if list_ex (\<lambda>c. n_classes \<le> c) y then Inl IndexError
      else Inr \<lparr>shape2 = (length y, n_classes), data2 = map (one_hot_row n_classes) y\<rparr>)"

text \<open>Cutting a list into consecutive pieces of length \<open>k\<close>.\<close>

function chunks :: "nat \<Rightarrow> 'a list \<Rightarrow> 'a list list" where
  "chunks k xs = (if k = 0 \<or> xs = [] then [] else take k xs # chunks k (drop k xs))"
  by pat_completeness auto
termination
  by (relation "measure (\<lambda>(k, xs). length xs)") auto

declare chunks.simps [simp del]

text \<open>
  \<open>A.reshape(-1, d1, d2)\<close> of a matrix: the entries in row-major order are regrouped into
  rows of \<open>d2\<close> and those into blocks of \<open>d1\<close>. NumPy raises ValueError when the first
  dimension cannot be inferred, that is when \<open>d1 * d2\<close> is zero or does not divide the
  number of entries.
\<close>

definition reshape3 :: "'a ndarray2 \<Rightarrow> nat \<Rightarrow> nat \<Rightarrow> py_error + 'a ndarray3" where
  "reshape3 A d1 d2 =
     (let size = fst (shape2 A) * snd (shape2 A) in
      if d1 * d2 = 0 \<or> size mod (d1 * d2) \<noteq> 0 then Inl ValueError
      else Inr \<lparr>shape3 = (size div (d1 * d2), d1, d2),
                data3 = chunks d1 (chunks d2 (concat (data2 A)))\<rparr>)"

type_synonym ('f, 'w) yielded = "'f array list \<times> real ndarray3 list \<times> 'w ndarray2 list"

text \<open>One pass through the body of the inner loop, up to the \<open>yield\<close>.\<close>

definition loop_body ::
  "nat \<Rightarrow> ('ds, 'f) gen_state \<Rightarrow> ('f, 'w, 'i) batch \<Rightarrow>
   py_error + (('ds, 'f) gen_state \<times> ('f, 'w) yielded)" where
  "loop_body n_tasks s b =
     (case assemble_inputs s (X_b b) of
        Inl e \<Rightarrow> Inl e
      | Inr s' \<Rightarrow>
          (case to_one_hot (flatten (y_b b)) 2 of
             Inl e \<Rightarrow> Inl e
           | Inr h \<Rightarrow>
               (case reshape3 h n_tasks 2 of
                  Inl e \<Rightarrow> Inl e
                | Inr l \<Rightarrow> Inr (s', (inputs s', [l], [w_b b])))))"

text \<open>
  A run of the generator is the list of the tuples it yields, the error that ended it (if
  one was raised) and the state it stopped in. An error ends the run: the yields before it
  stay, the state is the one at the start of the failing pass.
\<close>

fun run_batches ::
  "nat \<Rightarrow> ('ds, 'f) gen_state \<Rightarrow> ('f, 'w, 'i) batch list \<Rightarrow>
   ('ds, 'f) gen_state \<times> ('f, 'w) yielded list \<times> py_error option" where
  "run_batches n_tasks s [] = (s, [], None)"
| "run_batches n_tasks s (b # bs) =
     (case loop_body n_tasks s b of
        Inl e \<Rightarrow> (s, [], Some e)
      | Inr (s', y) \<Rightarrow>
          (case run_batches n_tasks s' bs of (s'', ys, e) \<Rightarrow> (s'', y # ys, e)))"

text \<open>
  \<open>dataset.iterbatches\<close> is a method of the library: it is the parameter \<open>iterbatches\<close>,
  applied to the dataset, the batch size and the flags \<open>pad_batches\<close> and
  \<open>deterministic\<close>. Its first argument stands for the state of the random number
  generator at the call, which is \<open>rng epoch\<close> in the pass \<open>epoch\<close> of the outer loop.
\<close>

fun run_epochs ::
  "('r \<Rightarrow> 'ds \<Rightarrow> nat \<Rightarrow> bool \<Rightarrow> bool \<Rightarrow> ('f, 'w, 'i) batch list) \<Rightarrow> (nat \<Rightarrow> 'r) \<Rightarrow> nat \<Rightarrow> bool \<Rightarrow>
   ('ds, 'f) gen_state \<Rightarrow> nat list \<Rightarrow>
   ('ds, 'f) gen_state \<times> ('f, 'w) yielded list \<times> py_error option" where
  "run_epochs iterbatches rng n_tasks pad_batches s [] = (s, [], None)"
| "run_epochs iterbatches rng n_tasks pad_batches s (epoch # es) =
     (case run_batches n_tasks s
             (iterbatches (rng epoch) (dataset s) batch_size pad_batches True) of
        (s', ys, Some e) \<Rightarrow> (s', ys, Some e)
      | (s', ys, None) \<Rightarrow>
          (case run_epochs iterbatches rng n_tasks pad_batches s' es of
             (s'', ys', e) \<Rightarrow> (s'', ys @ ys', e)))"

definition data_generator ::
  "('r \<Rightarrow> 'ds \<Rightarrow> nat \<Rightarrow> bool \<Rightarrow> bool \<Rightarrow> ('f, 'w, 'i) batch list) \<Rightarrow> (nat \<Rightarrow> 'r) \<Rightarrow> nat \<Rightarrow>
   'ds \<Rightarrow> nat \<Rightarrow> bool \<Rightarrow> bool \<Rightarrow>
   ('ds, 'f) gen_state \<times> ('f, 'w) yielded list \<times> py_error option" where
  "data_generator iterbatches rng n_tasks ds epochs predict pad_batches =
     run_epochs iterbatches rng n_tasks pad_batches
       \<lparr>dataset = ds, multiConvMol = None, inputs = []\<rparr> [0..<epochs]"

text \<open>The batches that the two loops visit, in order.\<close>

definition visited_batches ::
  "('r \<Rightarrow> 'ds \<Rightarrow> nat \<Rightarrow> bool \<Rightarrow> bool \<Rightarrow> ('f, 'w, 'i) batch list) \<Rightarrow> (nat \<Rightarrow> 'r) \<Rightarrow> 'ds \<Rightarrow> nat \<Rightarrow>
   bool \<Rightarrow> ('f, 'w, 'i) batch list" where
  "visited_batches iterbatches rng ds epochs pad_batches =
     concat (map (\<lambda>epoch. iterbatches (rng epoch) ds batch_size pad_batches True) [0..<epochs])"

section \<open>Example inputs\<close>

text \<open>
  A batch of two small molecules, a chain of three atoms and a pair of bonded atoms, with
  feature vectors of width 75; a dataset that is one such batch; and a stand-in for
  \<open>iterbatches\<close> that shuffles (here: rotates by the random state) unless it is asked to
  be deterministic.
\<close>

definition ex_mols :: "atom_vec ConvMol list" where
  "ex_mols = [\<lparr>atom_features = [const_vec 1, const_vec 2, const_vec 3],
               adj_list = [[1], [0, 2], [1]]\<rparr>,
              \<lparr>atom_features = [const_vec 4, const_vec 5], adj_list = [[1], [0]]\<rparr>]"

definition ex_batch :: "(atom_vec, real, string) batch" where
  "ex_batch = \<lparr>X_b = ex_mols,
               y_b = \<lparr>shape2 = (2, 2), data2 = [[0, 1], [1, 1]]\<rparr>,
               w_b = \<lparr>shape2 = (2, 2), data2 = [[1, 1], [1, 0]]\<rparr>,
               ids_b = [''CCC'', ''CC'']\<rparr>"

definition ex_dataset :: "(atom_vec, real, string) batch list" where
  "ex_dataset = [ex_batch]"

definition ex_iterbatches ::
  "nat \<Rightarrow> (atom_vec, real, string) batch list \<Rightarrow> nat \<Rightarrow> bool \<Rightarrow> bool \<Rightarrow>
   (atom_vec, real, string) batch list" where
  "ex_iterbatches r ds n pad_batches deterministic = (if deterministic then ds else rotate r ds)"

definition ex_rng :: "nat \<Rightarrow> nat" where
  "ex_rng epoch = 0"

definition ex_run ::
  "((atom_vec, real, string) batch list, atom_vec) gen_state \<times>
   (atom_vec, real) yielded list \<times> py_error option" where
  "ex_run = data_generator ex_iterbatches ex_rng 2 ex_dataset 1 False True"

definition ex_state :: "((atom_vec, real, string) batch list, atom_vec) gen_state" where
  "ex_state = \<lparr>dataset = ex_dataset, multiConvMol = None,
               inputs = [IntVec [7], IntMat [[8, 9]]]\<rparr>"

section \<open>Properties of the prediction reshaping\<close>

text \<open>
  C8: for labels of length \<open>n\<close> and predictions with at least \<open>n\<close> rows, \<open>n_tasks\<close> columns
  and a third axis of size at least two, \<open>reshape_y_pred\<close> returns the array of shape
  \<open>(n, n_tasks)\<close> whose entry \<open>(i, t)\<close> is \<open>y_pred[i, t, 1]\<close>.
\<close>

theorem reshape_y_pred_spec:
  assumes "wf3 y_pred"
    and "shape3 y_pred = (d0, n_tasks, d2)"
    and "len2 y_true = n"
    and "n \<le> d0"
    and "2 \<le> d2"
  shows "\<exists>R. reshape_y_pred y_true y_pred = Inr R \<and> wf2 R \<and> shape2 R = (n, n_tasks) \<and>
             (\<forall>i < n. \<forall>t < n_tasks. data2 R ! i ! t = data3 y_pred ! i ! t ! 1)"
proof -
  let ?R = "\<lparr>shape2 = (n, n_tasks), data2 = map (map (\<lambda>p. p ! 1)) (take n (data3 y_pred))\<rparr>"
  have len: "length (data3 y_pred) = d0"
    and row: "\<And>r. r \<in> set (data3 y_pred) \<Longrightarrow> length r = n_tasks"
    using assms(1,2) by (simp_all add: wf3_def)
  have res: "reshape_y_pred y_true y_pred = Inr ?R"
    using assms(2-5) by (simp add: reshape_y_pred_def Let_def min_def)
  have wf: "wf2 ?R"
    using len row assms(4) by (auto simp: wf2_def dest: in_set_takeD)
  have ent: "data2 ?R ! i ! t = data3 y_pred ! i ! t ! 1" if "i < n" "t < n_tasks" for i t
  proof -
    have "i < length (data3 y_pred)" using that(1) assms(4) len by simp
    moreover from this have "length (data3 y_pred ! i) = n_tasks" by (simp add: row)
    ultimately show ?thesis using that by simp
  qed
  show ?thesis using res wf ent by simp
qed

theorem reshape_y_pred_spec_witness:
  "\<exists>R. reshape_y_pred \<lparr>shape2 = (1, 2), data2 = [[0, 1 :: nat]]\<rparr>
          \<lparr>shape3 = (2, 2, 2), data3 = [[[1, 2], [3, 4]], [[5, 6], [7, 8 :: nat]]]\<rparr> = Inr R \<and>
       wf2 R \<and> shape2 R = (1, 2) \<and>
       (\<forall>i < 1. \<forall>t < 2. data2 R ! i ! t =
          data3 \<lparr>shape3 = (2, 2, 2), data3 = [[[1, 2], [3, 4]], [[5, 6], [7, 8 :: nat]]]\<rparr> ! i ! t ! 1)"
  by (rule reshape_y_pred_spec [where ?d0.0 = 2 and ?d2.0 = 2]) (simp_all add: wf3_def len2_def)

section \<open>Lists: positions in a concatenation, counting, running sums\<close>

lemma concat_nth_offset:
  "k < length xss \<Longrightarrow> i < length (xss ! k) \<Longrightarrow>
   sum_list (map length (take k xss)) + i < length (concat xss) \<and>
   concat xss ! (sum_list (map length (take k xss)) + i) = xss ! k ! i"
proof (induction xss arbitrary: k)
  case Nil
  then show ?case by simp
next
  case (Cons xs xss)
  show ?case
  proof (cases k)
    case 0
    with Cons.prems show ?thesis by (simp add: nth_append)
  next
    case (Suc j)
    with Cons.prems have "j < length xss" "i < length (xss ! j)" by simp_all
    from Cons.IH [OF this] Suc show ?thesis by (simp add: nth_append add.assoc)
  qed
qed

lemma concat_map_upt_nth:
  assumes "k < n" and "i < length (f k)"
  shows "sum_list (map (\<lambda>j. length (f j)) [0..<k]) + i < length (concat (map f [0..<n]))"
    and "concat (map f [0..<n]) ! (sum_list (map (\<lambda>j. length (f j)) [0..<k]) + i) = f k ! i"
proof -
  have tk: "take k (map f [0..<n]) = map f [0..<k]"
    using assms(1) by (simp add: take_map)
  have "k < length (map f [0..<n])" "i < length (map f [0..<n] ! k)"
    using assms by simp_all
  from concat_nth_offset [OF this] tk assms(1)
  show "sum_list (map (\<lambda>j. length (f j)) [0..<k]) + i < length (concat (map f [0..<n]))"
    and "concat (map f [0..<n]) ! (sum_list (map (\<lambda>j. length (f j)) [0..<k]) + i) = f k ! i"
    by (simp_all add: comp_def)
qed

lemma filter_upt_rank:
  assumes "a < n" and "P a"
  shows "length (filter P [0..<a]) < length (filter P [0..<n])"
    and "filter P [0..<n] ! length (filter P [0..<a]) = a"
proof -
  have split: "[0..<n] = [0..<a] @ a # [Suc a..<n]"
    using assms(1) by (metis le_add1 less_imp_le_nat upt_add_eq_append upt_conv_Cons plus_nat.add_0 le_add_diff_inverse)
  show "length (filter P [0..<a]) < length (filter P [0..<n])"
    by (subst split) (simp add: assms(2))
  show "filter P [0..<n] ! length (filter P [0..<a]) = a"
    by (subst split) (simp add: assms(2) nth_append)
qed

lemma length_filter_concat:
  "length (filter Q (concat xss)) = sum_list (map (\<lambda>xs. length (filter Q xs)) xss)"
  by (induction xss) simp_all

lemma sum_list_delta:
  "k < n \<Longrightarrow> sum_list (map (\<lambda>j. if j = k then c else (0::nat)) [0..<n]) = c"
  by (simp add: interv_sum_list_conv_sum_set_nat)

lemma sum_list_length_filter_eq:
  "(\<forall>a \<in> set xs. f a < n) \<Longrightarrow>
   sum_list (map (\<lambda>d. length (filter (\<lambda>a. f a = d) xs)) [0..<n]) = length xs"
proof (induction xs)
  case Nil
  then show ?case by simp
next
  case (Cons x xs)
  have "sum_list (map (\<lambda>d. length (filter (\<lambda>a. f a = d) (x # xs))) [0..<n]) =
        sum_list (map (\<lambda>d. (if d = f x then 1 else 0) + length (filter (\<lambda>a. f a = d) xs)) [0..<n])"
    by (rule arg_cong [where f = sum_list], rule map_cong) auto
  also have "\<dots> = sum_list (map (\<lambda>d. if d = f x then 1 else 0) [0..<n]) +
                   sum_list (map (\<lambda>d. length (filter (\<lambda>a. f a = d) xs)) [0..<n])"
    by (simp add: sum_list_addf)
  also have "\<dots> = 1 + length xs"
    using Cons by (simp add: sum_list_delta)
  finally show ?case by simp
qed

lemma length_concat_const:
  "\<forall>r \<in> set rs. length r = k \<Longrightarrow> length (concat rs) = length rs * k"
  by (induction rs) simp_all

lemma map_nth_from_1: "map (\<lambda>i. f (xs ! i)) [Suc 0..<length xs] = map f (drop (Suc 0) xs)"
  by (rule nth_equalityI) auto

lemma cumsum_mono:
  "d \<le> d' \<Longrightarrow> sum_list (map f [0..<d]) \<le> sum_list (map f [0..<d']) + (0::nat)"
  by (induction d') (auto simp: le_Suc_eq)

lemma cumsum_slice_ex:
  "i < sum_list (map f [0..<n]) \<Longrightarrow>
   \<exists>d < n. sum_list (map f [0..<d]) \<le> i \<and> i < sum_list (map f [0..<d]) + (f d :: nat)"
proof (induction n)
  case 0
  then show ?case by simp
next
  case (Suc n)
  show ?case
  proof (cases "i < sum_list (map f [0..<n])")
    case True
    from Suc.IH [OF this] show ?thesis using less_Suc_eq by auto
  next
    case False
    with Suc.prems show ?thesis by (intro exI [of _ n]) simp
  qed
qed

lemma cumsum_slice_unique:
  assumes "sum_list (map f [0..<d]) \<le> i" and "i < sum_list (map f [0..<d]) + (f d :: nat)"
    and "sum_list (map f [0..<d']) \<le> i" and "i < sum_list (map f [0..<d']) + f d'"
  shows "d = d'"
proof (rule ccontr)
  assume "d \<noteq> d'"
  then consider "Suc d \<le> d'" | "Suc d' \<le> d" by linarith
  then show False
  proof cases
    case 1
    from cumsum_mono [OF this, of f] assms show False by simp
  next
    case 2
    from cumsum_mono [OF this, of f] assms show False by simp
  qed
qed

lemma chunks_Nil: "chunks k [] = []"
  by (simp add: chunks.simps)

lemma chunks_append:
  "0 < k \<Longrightarrow> length r = k \<Longrightarrow> chunks k (r @ xs) = r # chunks k xs"
  by (subst chunks.simps) auto

lemma chunks_concat:
  "0 < k \<Longrightarrow> \<forall>r \<in> set rs. length r = k \<Longrightarrow> chunks k (concat rs) = rs"
  by (induction rs) (simp_all add: chunks_Nil chunks_append)

section \<open>The order of the atoms in a batch\<close>

lemma wf_mol_degree:
  "wf_mol m \<Longrightarrow> a < num_atoms m \<Longrightarrow> degree m a \<le> max_deg"
  by (simp add: wf_mol_def num_atoms_def degree_def)

lemma wf_mol_neighbour:
  "wf_mol m \<Longrightarrow> a < num_atoms m \<Longrightarrow> j \<in> set (adj_list m ! a) \<Longrightarrow> j < num_atoms m"
  by (metis wf_mol_def num_atoms_def nth_mem)

lemma deg_rank_nth:
  assumes "a < num_atoms m"
  shows "deg_rank m a < length (atoms_with_deg m (degree m a))"
    and "atoms_with_deg m (degree m a) ! deg_rank m a = a"
  using filter_upt_rank [of a "num_atoms m" "\<lambda>a'. degree m a' = degree m a"] assms
  by (simp_all add: deg_rank_def atoms_with_deg_def)

lemma deg_block_nth:
  assumes "k < length mols" and "a < num_atoms (mols ! k)"
  shows "mol_start mols (degree (mols ! k) a) k + deg_rank (mols ! k) a
           < deg_size mols (degree (mols ! k) a)"
    and "deg_block mols (degree (mols ! k) a) !
           (mol_start mols (degree (mols ! k) a) k + deg_rank (mols ! k) a) = (k, a)"
proof -
  let ?d = "degree (mols ! k) a"
  let ?f = "\<lambda>j. map (Pair j) (atoms_with_deg (mols ! j) ?d)"
  have i: "deg_rank (mols ! k) a < length (?f k)"
    using deg_rank_nth(1) [OF assms(2)] by simp
  from concat_map_upt_nth(1) [of k "length mols" "deg_rank (mols ! k) a" ?f, OF assms(1) i]
  show "mol_start mols ?d k + deg_rank (mols ! k) a < deg_size mols ?d"
    by (simp add: mol_start_def deg_size_def deg_block_def)
  from concat_map_upt_nth(2) [of k "length mols" "deg_rank (mols ! k) a" ?f, OF assms(1) i]
  show "deg_block mols ?d ! (mol_start mols ?d k + deg_rank (mols ! k) a) = (k, a)"
    using deg_rank_nth [OF assms(2)] by (simp add: mol_start_def deg_block_def)
qed

lemma to_final_id_nth:
  assumes "k < length mols" and "a < num_atoms (mols ! k)"
    and "degree (mols ! k) a \<le> max_deg"
  shows "to_final_id mols k a < length (batch_order mols)"
    and "batch_order mols ! to_final_id mols k a = (k, a)"
proof -
  let ?d = "degree (mols ! k) a"
  let ?i = "mol_start mols ?d k + deg_rank (mols ! k) a"
  have d: "?d < Suc max_deg" using assms(3) by simp
  have i: "?i < length (deg_block mols ?d)"
    using deg_block_nth(1) [OF assms(1,2)] by (simp add: deg_size_def)
  from concat_map_upt_nth(1) [of ?d "Suc max_deg" ?i "deg_block mols", OF d i]
  show "to_final_id mols k a < length (batch_order mols)"
    by (simp add: to_final_id_def deg_start_def deg_size_def [abs_def] batch_order_def add.assoc)
  from concat_map_upt_nth(2) [of ?d "Suc max_deg" ?i "deg_block mols", OF d i]
  show "batch_order mols ! to_final_id mols k a = (k, a)"
    using deg_block_nth(2) [OF assms(1,2)]
    by (simp add: to_final_id_def deg_start_def deg_size_def [abs_def] batch_order_def add.assoc)
qed

lemma set_deg_block:
  "set (deg_block mols d) =
     {(k, a). k < length mols \<and> a < num_atoms (mols ! k) \<and> degree (mols ! k) a = d}"
  by (auto simp: deg_block_def atoms_with_deg_def)

lemma set_batch_order:
  "set (batch_order mols) =
     {(k, a). k < length mols \<and> a < num_atoms (mols ! k) \<and> degree (mols ! k) a \<le> max_deg}"
  by (auto simp: batch_order_def set_deg_block less_Suc_eq_le)

lemma count_deg_block:
  assumes "k < length mols"
  shows "length (filter (\<lambda>p. fst p = k) (deg_block mols d)) =
         length (atoms_with_deg (mols ! k) d)"
proof -
  have "length (filter (\<lambda>p. fst p = k) (deg_block mols d)) =
        sum_list (map (\<lambda>j. if j = k then length (atoms_with_deg (mols ! k) d) else 0)
                    [0..<length mols])"
    unfolding deg_block_def length_filter_concat map_map
    by (rule arg_cong [where f = sum_list], rule map_cong) (auto simp: filter_map comp_def)
  then show ?thesis using assms by (simp add: sum_list_delta)
qed

lemma count_batch_order:
  assumes "k < length mols" and "wf_mol (mols ! k)"
  shows "length (filter (\<lambda>p. fst p = k) (batch_order mols)) = num_atoms (mols ! k)"
proof -
  have "length (filter (\<lambda>p. fst p = k) (batch_order mols)) =
        sum_list (map (\<lambda>d. length (atoms_with_deg (mols ! k) d)) [0..<Suc max_deg])"
    unfolding batch_order_def length_filter_concat map_map
    by (rule arg_cong [where f = sum_list], rule map_cong)
       (simp_all add: count_deg_block [OF assms(1)] comp_def)
  also have "\<dots> = length [0..<num_atoms (mols ! k)]"
    unfolding atoms_with_deg_def
    by (rule sum_list_length_filter_eq)
       (use wf_mol_degree [OF assms(2)] in \<open>auto simp: less_Suc_eq_le\<close>)
  finally show ?thesis by simp
qed

lemma length_batch_order:
  assumes "list_all wf_mol mols"
  shows "length (batch_order mols) = sum_list (map num_atoms mols)"
proof -
  have "length (map fst (batch_order mols)) =
        sum_list (map (\<lambda>k. length (filter (\<lambda>j. j = k) (map fst (batch_order mols))))
                    [0..<length mols])"
    by (rule sum_list_length_filter_eq [where f = "\<lambda>j. j", symmetric])
       (auto simp: set_batch_order)
  also have "\<dots> = sum_list (map (\<lambda>k. num_atoms (mols ! k)) [0..<length mols])"
    by (rule arg_cong [where f = sum_list], rule map_cong)
       (use assms in \<open>simp_all add: filter_map comp_def count_batch_order list_all_length\<close>)
  also have "\<dots> = sum_list (map num_atoms mols)"
  proof -
    have "map (\<lambda>k. num_atoms (mols ! k)) [0..<length mols] =
          map num_atoms (map ((!) mols) [0..<length mols])"
      by simp
    then show ?thesis by (simp only: map_nth)
  qed
  finally show ?thesis by simp
qed

lemma length_batch_order_deg_start:
  "length (batch_order mols) = deg_start mols (Suc max_deg)"
  unfolding batch_order_def deg_start_def deg_size_def [abs_def]
  by (simp only: length_concat map_map comp_def)

section \<open>The parts of the batched graph\<close>

lemma agglomerate_mols_Inr:
  "agglomerate_mols mols = Inr B \<longleftrightarrow> list_all wf_mol mols \<and> B = agglomerate mols"
  by (auto simp: agglomerate_mols_def)

lemma length_features: "length (get_atom_features (agglomerate mols)) = length (batch_order mols)"
  by (simp add: agglomerate_def)

lemma length_membership: "length (membership (agglomerate mols)) = length (batch_order mols)"
  by (simp add: agglomerate_def)

lemma membership_eq: "membership (agglomerate mols) = map fst (batch_order mols)"
  by (simp add: agglomerate_def)

lemma length_deg_adjacency_lists:
  "length (get_deg_adjacency_lists (agglomerate mols)) = Suc max_deg"
  by (simp add: agglomerate_def)

lemma deg_slice_nth:
  "d \<le> max_deg \<Longrightarrow> deg_slice (agglomerate mols) ! d = [deg_start mols d, deg_size mols d]"
  by (simp add: agglomerate_def less_Suc_eq_le del: upt_Suc)

lemma deg_slice_width:
  "r \<in> set (deg_slice (agglomerate mols)) \<Longrightarrow> length r = 2"
  by (auto simp: agglomerate_def simp del: upt_Suc)

lemma deg_slice_partition:
  assumes "i < length (batch_order mols)"
  shows "\<exists>!d. d < length (deg_slice (agglomerate mols)) \<and>
              in_slice (deg_slice (agglomerate mols) ! d) i"
proof -
  have len: "length (deg_slice (agglomerate mols)) = Suc max_deg"
    by (simp add: agglomerate_def)
  have sl: "in_slice (deg_slice (agglomerate mols) ! d) i \<longleftrightarrow>
            sum_list (map (deg_size mols) [0..<d]) \<le> i \<and>
            i < sum_list (map (deg_size mols) [0..<d]) + deg_size mols d"
    if "d < Suc max_deg" for d
    using that by (simp add: deg_slice_nth in_slice_def deg_start_def)
  from assms have "i < sum_list (map (deg_size mols) [0..<Suc max_deg])"
    by (simp only: length_batch_order_deg_start deg_start_def)
  from cumsum_slice_ex [OF this] obtain d where
    d: "d < Suc max_deg" "sum_list (map (deg_size mols) [0..<d]) \<le> i"
      "i < sum_list (map (deg_size mols) [0..<d]) + deg_size mols d"
    by blast
  show ?thesis
  proof (rule ex1I [of _ d])
    show "d < length (deg_slice (agglomerate mols)) \<and> in_slice (deg_slice (agglomerate mols) ! d) i"
      using d sl [OF d(1)] len by simp
  next
    fix d'
    assume a: "d' < length (deg_slice (agglomerate mols)) \<and> in_slice (deg_slice (agglomerate mols) ! d') i"
    then have "d' < Suc max_deg" using len by simp
    from sl [OF this] a cumsum_slice_unique [of "deg_size mols" d' i d] d
    show "d' = d" by simp
  qed
qed

lemma deg_slice_within:
  assumes "row \<in> set (deg_slice (agglomerate mols))"
  shows "row ! 0 + row ! 1 \<le> length (batch_order mols)"
proof -
  from assms obtain d where d: "d < Suc max_deg" "row = [deg_start mols d, deg_size mols d]"
    by (auto simp: agglomerate_def simp del: upt_Suc)
  have "deg_start mols (Suc d) \<le> deg_start mols (Suc max_deg)"
    using cumsum_mono [of "Suc d" "Suc max_deg" "deg_size mols"] d(1)
    unfolding deg_start_def by simp
  then show ?thesis
    using d(2) by (simp add: length_batch_order_deg_start deg_start_def)
qed

lemma deg_adj_nth:
  "d \<le> max_deg \<Longrightarrow> i < deg_size mols d \<Longrightarrow> deg_block mols d ! i = (k, a) \<Longrightarrow>
   get_deg_adjacency_lists (agglomerate mols) ! d ! i =
     map (to_final_id mols k) (adj_list (mols ! k) ! a)"
  by (simp add: agglomerate_def deg_size_def less_Suc_eq_le del: upt_Suc)

lemma deg_adj_width:
  assumes "d \<le> max_deg" and "r \<in> set (get_deg_adjacency_lists (agglomerate mols) ! d)"
  shows "length r = d"
proof -
  from assms obtain k a where ka: "(k, a) \<in> set (deg_block mols d)"
    and r: "r = map (to_final_id mols k) (adj_list (mols ! k) ! a)"
    by (auto simp: agglomerate_def less_Suc_eq_le simp del: upt_Suc)
  from ka have "degree (mols ! k) a = d" by (simp add: set_deg_block)
  with r show ?thesis by (simp add: degree_def)
qed

lemma adjacency_valid:
  assumes "list_all wf_mol mols"
    and "adj \<in> set (get_deg_adjacency_lists (agglomerate mols))"
    and "row \<in> set adj" and "j \<in> set row"
  shows "j < length (batch_order mols)"
proof -
  from assms(2,3) obtain d k a where
    ka: "(k, a) \<in> set (deg_block mols d)"
    and row: "row = map (to_final_id mols k) (adj_list (mols ! k) ! a)"
    by (auto simp: agglomerate_def simp del: upt_Suc)
  from ka have k: "k < length mols" and a: "a < num_atoms (mols ! k)"
    by (simp_all add: set_deg_block)
  from assms(1) k have wf: "wf_mol (mols ! k)" by (simp add: list_all_length)
  from row assms(4) obtain b where b: "b \<in> set (adj_list (mols ! k) ! a)" "j = to_final_id mols k b"
    by auto
  from wf_mol_neighbour [OF wf a b(1)] have "b < num_atoms (mols ! k)" .
  from to_final_id_nth(1) [OF k this wf_mol_degree [OF wf this]] b(2) show ?thesis by simp
qed

lemma ex_mols_wf: "list_all wf_mol ex_mols"
  by code_simp

lemma ex_mols_agglomerate: "agglomerate_mols ex_mols = Inr (agglomerate ex_mols)"
  by (simp add: agglomerate_mols_def ex_mols_wf)

section \<open>Invariants of the batched graph\<close>

text \<open>
  C1: in the batched graph of a minibatch every atom belongs to exactly one molecule (the
  membership has one entry per atom, each entry is a molecule of the batch, and molecule
  \<open>k\<close> owns exactly as many atoms as it has); every entry of every adjacency list is an
  atom index of the batch; every atom index lies in exactly one degree slice, and no slice
  reaches beyond the atoms.
\<close>

theorem agglomerate_mols_invariants:
  assumes "agglomerate_mols mols = Inr B"
  shows "length (membership B) = length (get_atom_features B) \<and>
         (\<forall>i < length (get_atom_features B). membership B ! i < length mols) \<and>
         (\<forall>k < length mols. length (filter (\<lambda>j. j = k) (membership B)) = num_atoms (mols ! k)) \<and>
         (\<forall>adj \<in> set (get_deg_adjacency_lists B). \<forall>row \<in> set adj. \<forall>j \<in> set row.
            j < length (get_atom_features B)) \<and>
         (\<forall>i < length (get_atom_features B).
            \<exists>!d. d < length (deg_slice B) \<and> in_slice (deg_slice B ! d) i) \<and>
         (\<forall>row \<in> set (deg_slice B). row ! 0 + row ! 1 \<le> length (get_atom_features B))"
proof -
  from assms have wf: "list_all wf_mol mols" and B: "B = agglomerate mols"
    by (simp_all add: agglomerate_mols_Inr)
  have m1: "length (membership B) = length (get_atom_features B)"
    by (simp add: B length_features length_membership)
  have m2: "membership B ! i < length mols" if "i < length (get_atom_features B)" for i
  proof -
    from that have "batch_order mols ! i \<in> set (batch_order mols)"
      by (simp add: B length_features)
    then have "fst (batch_order mols ! i) < length mols"
      by (auto simp: set_batch_order)
    with that show ?thesis by (simp add: B membership_eq length_features)
  qed
  have m3: "length (filter (\<lambda>j. j = k) (membership B)) = num_atoms (mols ! k)"
    if "k < length mols" for k
    using count_batch_order [OF that] wf that
    by (simp add: B membership_eq filter_map comp_def list_all_length)
  have a: "j < length (get_atom_features B)"
    if "adj \<in> set (get_deg_adjacency_lists B)" "row \<in> set adj" "j \<in> set row" for adj row j
    using adjacency_valid [OF wf] that by (simp add: B length_features)
  have s1: "\<exists>!d. d < length (deg_slice B) \<and> in_slice (deg_slice B ! d) i"
    if "i < length (get_atom_features B)" for i
    using deg_slice_partition [of i mols] that by (simp add: B length_features)
  have s2: "row ! 0 + row ! 1 \<le> length (get_atom_features B)"
    if "row \<in> set (deg_slice B)" for row
    using deg_slice_within [of row mols] that by (simp add: B length_features)
  from m1 m2 m3 a s1 s2 show ?thesis by blast
qed

theorem agglomerate_mols_invariants_witness:
  "\<exists>B. agglomerate_mols ex_mols = Inr B \<and>
       (length (membership B) = length (get_atom_features B) \<and>
        (\<forall>i < length (get_atom_features B). membership B ! i < length ex_mols) \<and>
        (\<forall>k < length ex_mols.
           length (filter (\<lambda>j. j = k) (membership B)) = num_atoms (ex_mols ! k)) \<and>
        (\<forall>adj \<in> set (get_deg_adjacency_lists B). \<forall>row \<in> set adj. \<forall>j \<in> set row.
           j < length (get_atom_features B)) \<and>
        (\<forall>i < length (get_atom_features B).
           \<exists>!d. d < length (deg_slice B) \<and> in_slice (deg_slice B ! d) i) \<and>
        (\<forall>row \<in> set (deg_slice B). row ! 0 + row ! 1 \<le> length (get_atom_features B)))"
  by (rule exI, rule conjI [OF ex_mols_agglomerate
        agglomerate_mols_invariants [OF ex_mols_agglomerate]])

section \<open>The assembly as a transformation\<close>

lemma distinct_tagged_concat:
  "distinct ks \<Longrightarrow> (\<And>k. distinct (f k)) \<Longrightarrow>
   distinct (concat (map (\<lambda>k. map (Pair k) (f k)) ks))"
  by (induction ks) (auto simp: distinct_map inj_on_def)

lemma distinct_deg_block: "distinct (deg_block mols d)"
  unfolding deg_block_def
  by (rule distinct_tagged_concat) (simp_all add: atoms_with_deg_def)

lemma deg_block_in_batch_order:
  assumes "d \<le> max_deg" and "j < deg_size mols d"
  shows "batch_order mols ! (deg_start mols d + j) = deg_block mols d ! j"
  using concat_map_upt_nth(2) [of d "Suc max_deg" j "deg_block mols"] assms
  by (simp add: batch_order_def deg_start_def deg_size_def [abs_def])

lemma slice_atom:
  assumes "d \<le> max_deg" and "j < deg_size mols d"
  shows "\<exists>k a. k < length mols \<and> a < num_atoms (mols ! k) \<and> degree (mols ! k) a = d \<and>
               to_final_id mols k a = deg_start mols d + j"
proof -
  obtain k a where ka: "deg_block mols d ! j = (k, a)" by (cases "deg_block mols d ! j")
  from assms(2) have "deg_block mols d ! j \<in> set (deg_block mols d)"
    by (simp add: deg_size_def)
  with ka have k: "k < length mols" and a: "a < num_atoms (mols ! k)"
    and d: "degree (mols ! k) a = d"
    by (simp_all add: set_deg_block)
  from deg_block_nth [OF k a] d
  have r: "mol_start mols d k + deg_rank (mols ! k) a < deg_size mols d"
    and e: "deg_block mols d ! (mol_start mols d k + deg_rank (mols ! k) a) = (k, a)"
    by simp_all
  from e ka have "deg_block mols d ! (mol_start mols d k + deg_rank (mols ! k) a) =
                  deg_block mols d ! j" by simp
  with r assms(2) have "mol_start mols d k + deg_rank (mols ! k) a = j"
    using distinct_deg_block [of mols d]
    by (simp add: nth_eq_iff_index_eq deg_size_def)
  with d have "to_final_id mols k a = deg_start mols d + j"
    by (simp add: to_final_id_def)
  with k a d show ?thesis by blast
qed

lemma batch_atom:
  assumes "i < length (batch_order mols)"
  shows "\<exists>k a. k < length mols \<and> a < num_atoms (mols ! k) \<and> to_final_id mols k a = i"
proof -
  from assms have "i < sum_list (map (deg_size mols) [0..<Suc max_deg])"
    by (simp only: length_batch_order_deg_start deg_start_def)
  from cumsum_slice_ex [OF this] obtain d where
    d: "d < Suc max_deg" "sum_list (map (deg_size mols) [0..<d]) \<le> i"
      "i < sum_list (map (deg_size mols) [0..<d]) + deg_size mols d"
    by blast
  then have "d \<le> max_deg" "i - deg_start mols d < deg_size mols d"
    by (simp_all add: deg_start_def)
  from slice_atom [OF this] d(2) show ?thesis by (auto simp: deg_start_def)
qed


lemma assembled_from_agglomerate:
  assumes wf: "list_all wf_mol mols"
  shows "assembled_from mols (agglomerate mols)"
proof -
  let ?B = "agglomerate mols"
  let ?N = "sum_list (map num_atoms mols)"
  have N: "length (batch_order mols) = ?N" by (rule length_batch_order [OF wf])
  have slices: "deg_slice ?B ! d = [deg_start mols d, deg_size mols d] \<and>
                length (get_deg_adjacency_lists ?B ! d) = deg_size mols d"
    if "d \<in> {..max_deg}" for d
    using that
    by (simp add: deg_slice_nth) (simp add: agglomerate_def deg_size_def less_Suc_eq_le del: upt_Suc)
  have atoms: "to_final_id mols k a < ?N \<and>
               get_atom_features ?B ! to_final_id mols k a = atom_features (mols ! k) ! a \<and>
               membership ?B ! to_final_id mols k a = k \<and>
               in_slice (deg_slice ?B ! degree (mols ! k) a) (to_final_id mols k a) \<and>
               get_deg_adjacency_lists ?B ! degree (mols ! k) a !
                 (to_final_id mols k a - deg_start mols (degree (mols ! k) a)) =
                 map (to_final_id mols k) (adj_list (mols ! k) ! a)"
    if "k \<in> {..<length mols}" "a \<in> {..<num_atoms (mols ! k)}" for k a
  proof -
    let ?d = "degree (mols ! k) a"
    let ?g = "to_final_id mols k a"
    from that have k: "k < length mols" and a: "a < num_atoms (mols ! k)" by simp_all
    from wf k have wfk: "wf_mol (mols ! k)" by (simp add: list_all_length)
    have d: "?d \<le> max_deg" by (rule wf_mol_degree [OF wfk a])
    note g = to_final_id_nth [OF k a d]
    note blk = deg_block_nth [OF k a]
    have off: "?g - deg_start mols ?d = mol_start mols ?d k + deg_rank (mols ! k) a"
      by (simp add: to_final_id_def)
    have c1: "?g < ?N" using g(1) N by simp
    have c2: "get_atom_features ?B ! ?g = atom_features (mols ! k) ! a"
      using g by (simp add: agglomerate_def)
    have c3: "membership ?B ! ?g = k"
      using g by (simp add: membership_eq)
    have c4: "in_slice (deg_slice ?B ! ?d) ?g"
      using blk(1) by (simp add: deg_slice_nth [OF d] in_slice_def to_final_id_def)
    have c5: "get_deg_adjacency_lists ?B ! ?d ! (?g - deg_start mols ?d) =
              map (to_final_id mols k) (adj_list (mols ! k) ! a)"
      using deg_adj_nth [OF d blk(1) blk(2)] by (simp add: off)
    from c1 c2 c3 c4 c5 show ?thesis by blast
  qed
  have "length (get_atom_features ?B) = ?N" "length (membership ?B) = ?N"
    "length (deg_slice ?B) = Suc max_deg" "length (get_deg_adjacency_lists ?B) = Suc max_deg"
    using N by (simp_all add: length_features length_membership length_deg_adjacency_lists)
       (simp add: agglomerate_def)
  with slices atoms show ?thesis unfolding assembled_from_def by blast
qed

lemma assembled_from_unique:
  assumes wf: "list_all wf_mol mols"
    and B: "assembled_from mols B" and B': "assembled_from mols B'"
  shows "B' = B"
proof (rule MultiConvMol.equality)
  let ?N = "sum_list (map num_atoms mols)"
  have N: "length (batch_order mols) = ?N" by (rule length_batch_order [OF wf])
  note P = B [unfolded assembled_from_def] and P' = B' [unfolded assembled_from_def]
  have atom: "\<exists>k a. k \<in> {..<length mols} \<and> a \<in> {..<num_atoms (mols ! k)} \<and>
                     to_final_id mols k a = i" if "i < ?N" for i
    using batch_atom [of i mols] that N by auto
  show "get_atom_features B' = get_atom_features B"
  proof (rule nth_equalityI)
    show "length (get_atom_features B') = length (get_atom_features B)"
      using P P' by simp
    fix i assume "i < length (get_atom_features B')"
    with P' have "i < ?N" by simp
    from atom [OF this] obtain k a where
      "k \<in> {..<length mols}" "a \<in> {..<num_atoms (mols ! k)}" "to_final_id mols k a = i"
      by blast
    with P P' show "get_atom_features B' ! i = get_atom_features B ! i" by metis
  qed
  show "membership B' = membership B"
  proof (rule nth_equalityI)
    show "length (membership B') = length (membership B)"
      using P P' by simp
    fix i assume "i < length (membership B')"
    with P' have "i < ?N" by simp
    from atom [OF this] obtain k a where
      "k \<in> {..<length mols}" "a \<in> {..<num_atoms (mols ! k)}" "to_final_id mols k a = i"
      by blast
    with P P' show "membership B' ! i = membership B ! i" by metis
  qed
  show "deg_slice B' = deg_slice B"
  proof (rule nth_equalityI)
    show "length (deg_slice B') = length (deg_slice B)"
      using P P' by simp
    fix d assume "d < length (deg_slice B')"
    with P' have "d \<in> {..max_deg}" by simp
    with P P' show "deg_slice B' ! d = deg_slice B ! d" by simp
  qed
  show "get_deg_adjacency_lists B' = get_deg_adjacency_lists B"
  proof (rule nth_equalityI)
    show "length (get_deg_adjacency_lists B') = length (get_deg_adjacency_lists B)"
      using P P' by simp
    fix d assume "d < length (get_deg_adjacency_lists B')"
    with P' have d: "d \<in> {..max_deg}" by simp
    with P P' have len: "length (get_deg_adjacency_lists B ! d) = deg_size mols d"
      "length (get_deg_adjacency_lists B' ! d) = deg_size mols d"
      by simp_all
    show "get_deg_adjacency_lists B' ! d = get_deg_adjacency_lists B ! d"
    proof (rule nth_equalityI)
      show "length (get_deg_adjacency_lists B' ! d) = length (get_deg_adjacency_lists B ! d)"
        using len by simp
      fix j assume "j < length (get_deg_adjacency_lists B' ! d)"
      with len have j: "j < deg_size mols d" by simp
      from d have "d \<le> max_deg" by simp
      from slice_atom [OF this j] obtain k a where
        ka: "k \<in> {..<length mols}" "a \<in> {..<num_atoms (mols ! k)}"
        and dg: "degree (mols ! k) a = d"
        and g: "to_final_id mols k a = deg_start mols d + j"
        by auto
      from P ka have "get_deg_adjacency_lists B ! degree (mols ! k) a !
          (to_final_id mols k a - deg_start mols (degree (mols ! k) a)) =
          map (to_final_id mols k) (adj_list (mols ! k) ! a)" by blast
      moreover from P' ka have "get_deg_adjacency_lists B' ! degree (mols ! k) a !
          (to_final_id mols k a - deg_start mols (degree (mols ! k) a)) =
          map (to_final_id mols k) (adj_list (mols ! k) ! a)" by blast
      ultimately show "get_deg_adjacency_lists B' ! d ! j = get_deg_adjacency_lists B ! d ! j"
        using dg g by simp
    qed
  qed
  show "MultiConvMol.more B' = MultiConvMol.more B" by simp
qed

text \<open>
  C3: the batched graph that the assembly returns is exactly the result of the
  transformation that the spec describes (concatenate, compute offsets, bucket by degree,
  remap neighbours): it satisfies \<open>assembled_from\<close>, and it is the only graph that does.
\<close>

theorem agglomerate_mols_transformation:
  assumes "agglomerate_mols mols = Inr B"
  shows "assembled_from mols B \<and> (\<forall>B'. assembled_from mols B' \<longrightarrow> B' = B)"
proof -
  from assms have wf: "list_all wf_mol mols" and B: "B = agglomerate mols"
    by (simp_all add: agglomerate_mols_Inr)
  have ex: "assembled_from mols B"
    unfolding B by (rule assembled_from_agglomerate [OF wf])
  have "B' = B" if "assembled_from mols B'" for B'
    by (rule assembled_from_unique [OF wf ex that])
  with ex show ?thesis by blast
qed

theorem agglomerate_mols_transformation_witness:
  "\<exists>B. agglomerate_mols ex_mols = Inr B \<and>
       (assembled_from ex_mols B \<and> (\<forall>B'. assembled_from ex_mols B' \<longrightarrow> B' = B))"
  by (rule exI, rule conjI [OF ex_mols_agglomerate
        agglomerate_mols_transformation [OF ex_mols_agglomerate]])

section \<open>Runs of the generator\<close>

lemma append_deg_adjs_eq:
  "\<forall>i \<in> set is. i < length (get_deg_adjacency_lists m) \<Longrightarrow>
   append_deg_adjs m is s =
     Inr (s\<lparr>inputs := inputs s @ map (\<lambda>i. IntMat (get_deg_adjacency_lists m ! i)) is\<rparr>)"
  by (induction "is" arbitrary: s) (simp_all add: py_get_def)

lemma assemble_inputs_eq:
  "assemble_inputs s X =
     (if list_all wf_mol X
      then Inr (s\<lparr>multiConvMol := Some (agglomerate X),
                 inputs := [FloatMat (get_atom_features (agglomerate X)),
                            IntMat (deg_slice (agglomerate X)),
                            IntVec (membership (agglomerate X))] @
                           map IntMat (drop 1 (get_deg_adjacency_lists (agglomerate X)))\<rparr>)
      else Inl ValueError)"
  by (simp add: assemble_inputs_def agglomerate_mols_def append_deg_adjs_eq map_nth_from_1)

lemma assemble_inputs_frame:
  assumes "assemble_inputs s X = Inr s'"
  shows "\<exists>s1. assemble_inputs s0 X = Inr s1 \<and> inputs s1 = inputs s' \<and>
              multiConvMol s1 = multiConvMol s'"
  using assms by (auto simp: assemble_inputs_eq split: if_splits)

lemma assemble_inputs_dataset:
  "assemble_inputs s X = Inr s' \<Longrightarrow> dataset s' = dataset s"
  by (auto simp: assemble_inputs_eq split: if_splits)

lemma assemble_inputs_multiConvMol:
  "assemble_inputs s X = Inr s' \<Longrightarrow> multiConvMol s' = Some (agglomerate X)"
  by (auto simp: assemble_inputs_eq split: if_splits)

lemma loop_body_dataset:
  "loop_body T s b = Inr (s', y) \<Longrightarrow> dataset s' = dataset s"
  by (auto simp: loop_body_def assemble_inputs_dataset split: sum.splits)

lemma loop_body_frame:
  assumes "loop_body T s b = Inr (s', y)"
  shows "\<exists>s1. loop_body T s0 b = Inr (s1, y)"
proof -
  from assms obtain h l where
    a: "assemble_inputs s (X_b b) = Inr s'"
    and h: "to_one_hot (flatten (y_b b)) 2 = Inr h"
    and l: "reshape3 h T 2 = Inr l"
    and y: "y = (inputs s', [l], [w_b b])"
    by (auto simp: loop_body_def split: sum.splits)
  from assemble_inputs_frame [OF a, of s0] obtain s1 where
    "assemble_inputs s0 (X_b b) = Inr s1" "inputs s1 = inputs s'" by blast
  with h l y show ?thesis by (simp add: loop_body_def)
qed

lemma loop_body_assemble:
  assumes "loop_body T s0 b = Inr (s1, y)"
  shows "assemble_inputs s0 (X_b b) = Inr s1" and "inputs s1 = fst y"
  using assms by (auto simp: loop_body_def split: sum.splits)

lemma loop_body_inputs:
  assumes "loop_body T s0 b = Inr (s1, y)"
  shows "list_all wf_mol (X_b b)"
    and "fst y = [FloatMat (get_atom_features (agglomerate (X_b b))),
                  IntMat (deg_slice (agglomerate (X_b b))),
                  IntVec (membership (agglomerate (X_b b)))] @
                 map IntMat (drop 1 (get_deg_adjacency_lists (agglomerate (X_b b))))"
  using assms
  by (auto simp: loop_body_def assemble_inputs_eq split: sum.splits if_splits)

lemma loop_body_labels:
  assumes "loop_body T s0 b = Inr (s1, y)"
  shows "\<exists>h l. to_one_hot (flatten (y_b b)) 2 = Inr h \<and> reshape3 h T 2 = Inr l \<and>
               fst (snd y) = [l]"
  using assms by (auto simp: loop_body_def split: sum.splits)

lemma run_batches_sound:
  assumes "run_batches T s bs = (s', ys, err)"
  shows "dataset s' = dataset s"
    and "length ys \<le> length bs"
    and "err = None \<Longrightarrow> length ys = length bs"
    and "i < length ys \<Longrightarrow> \<exists>s1. loop_body T s0 (bs ! i) = Inr (s1, ys ! i)"
  using assms
proof (induction bs arbitrary: s s' ys err i)
  case Nil
  {
    case 1 then show ?case by simp
  next
    case 2 then show ?case by simp
  next
    case 3 then show ?case by simp
  next
    case 4 then show ?case by simp
  }
next
  case (Cons b bs)
  {
    case 1
    show ?case
    proof (cases "loop_body T s b")
      case (Inl e)
      with 1 show ?thesis by simp
    next
      case (Inr r)
      obtain s1 y where r: "r = (s1, y)" by (cases r)
      obtain s2 ys2 e2 where rb: "run_batches T s1 bs = (s2, ys2, e2)"
        by (cases "run_batches T s1 bs")
      from 1 Inr r rb have "s' = s2" by simp
      with Cons.IH(1) [OF rb] loop_body_dataset [of T s b s1 y] Inr r show ?thesis by simp
    qed
  next
    case 2
    show ?case
    proof (cases "loop_body T s b")
      case (Inl e)
      with 2 show ?thesis by auto
    next
      case (Inr r)
      obtain s1 y where r: "r = (s1, y)" by (cases r)
      obtain s2 ys2 e2 where rb: "run_batches T s1 bs = (s2, ys2, e2)"
        by (cases "run_batches T s1 bs")
      from 2 Inr r rb have "ys = y # ys2" by simp
      with Cons.IH(2) [OF rb] show ?thesis by simp
    qed
  next
    case 3
    show ?case
    proof (cases "loop_body T s b")
      case (Inl e)
      with 3 show ?thesis by auto
    next
      case (Inr r)
      obtain s1 y where r: "r = (s1, y)" by (cases r)
      obtain s2 ys2 e2 where rb: "run_batches T s1 bs = (s2, ys2, e2)"
        by (cases "run_batches T s1 bs")
      from 3 Inr r rb have "ys = y # ys2" "e2 = None" by simp_all
      with Cons.IH(3) [OF _ rb] show ?thesis by simp
    qed
  next
    case 4
    show ?case
    proof (cases "loop_body T s b")
      case (Inl e)
      with 4 show ?thesis by auto
    next
      case (Inr r)
      obtain s1 y where r: "r = (s1, y)" by (cases r)
      obtain s2 ys2 e2 where rb: "run_batches T s1 bs = (s2, ys2, e2)"
        by (cases "run_batches T s1 bs")
      from 4 Inr r rb have eq: "ys = y # ys2" by simp
      show ?thesis
      proof (cases i)
        case 0
        then show ?thesis using loop_body_frame [of T s b s1 y s0] Inr r eq by simp
      next
        case (Suc j)
        with 4(1) eq have "j < length ys2" by simp
        from Cons.IH(4) [OF this rb] Suc eq show ?thesis by simp
      qed
    qed
  }
qed

lemma run_epochs_dataset:
  "run_epochs ib rng T pad s es = (s', ys, err) \<Longrightarrow> dataset s' = dataset s"
proof (induction es arbitrary: s s' ys err)
  case Nil
  then show ?case by simp
next
  case (Cons e es)
  obtain s1 ys1 e1 where rb:
    "run_batches T s (ib (rng e) (dataset s) batch_size pad True) = (s1, ys1, e1)"
    by (cases "run_batches T s (ib (rng e) (dataset s) batch_size pad True)")
  have ds: "dataset s1 = dataset s" by (rule run_batches_sound(1) [OF rb])
  show ?case
  proof (cases e1)
    case (Some x)
    with Cons.prems rb ds show ?thesis by simp
  next
    case None
    obtain s2 ys2 e2 where re: "run_epochs ib rng T pad s1 es = (s2, ys2, e2)"
      by (cases "run_epochs ib rng T pad s1 es")
    from Cons.prems rb None re have "s' = s2" by simp
    with Cons.IH [OF re] ds show ?thesis by simp
  qed
qed

lemma run_epochs_sound:
  assumes "run_epochs ib rng T pad s es = (s', ys, err)"
  shows "length ys \<le> length (concat (map (\<lambda>e. ib (rng e) (dataset s) batch_size pad True) es))"
    and "i < length ys \<Longrightarrow> \<exists>s1.
      loop_body T s0 (concat (map (\<lambda>e. ib (rng e) (dataset s) batch_size pad True) es) ! i) =
        Inr (s1, ys ! i)"
  using assms
proof (induction es arbitrary: s s' ys err i)
  case Nil
  {
    case 1 then show ?case by simp
  next
    case 2 then show ?case by simp
  }
next
  case (Cons e es)
  {
    case 1
    let ?bs = "ib (rng e) (dataset s) batch_size pad True"
    obtain s1 ys1 e1 where rb: "run_batches T s ?bs = (s1, ys1, e1)"
      by (cases "run_batches T s ?bs")
    have ds: "dataset s1 = dataset s" by (rule run_batches_sound(1) [OF rb])
    have le: "length ys1 \<le> length ?bs" by (rule run_batches_sound(2) [OF rb])
    show ?case
    proof (cases e1)
      case (Some x)
      with 1 have "ys = ys1" by (simp add: rb)
      with le show ?thesis by simp
    next
      case None
      obtain s2 ys2 e2 where re: "run_epochs ib rng T pad s1 es = (s2, ys2, e2)"
        by (cases "run_epochs ib rng T pad s1 es")
      from 1 None have "ys = ys1 @ ys2" by (simp add: rb re)
      with Cons.IH(1) [OF re] le ds show ?thesis by simp
    qed
  next
    case 2
    let ?bs = "ib (rng e) (dataset s) batch_size pad True"
    let ?rest = "concat (map (\<lambda>e. ib (rng e) (dataset s) batch_size pad True) es)"
    obtain s1 ys1 e1 where rb: "run_batches T s ?bs = (s1, ys1, e1)"
      by (cases "run_batches T s ?bs")
    have ds: "dataset s1 = dataset s" by (rule run_batches_sound(1) [OF rb])
    have le: "length ys1 \<le> length ?bs" by (rule run_batches_sound(2) [OF rb])
    show ?case
    proof (cases e1)
      case (Some x)
      with 2(2) have eq: "ys = ys1" by (simp add: rb)
      with 2(1) le have "(?bs @ ?rest) ! i = ?bs ! i" by (simp add: nth_append)
      with run_batches_sound(4) [OF rb, of i s0] 2(1) eq show ?thesis by simp
    next
      case None
      obtain s2 ys2 e2 where re: "run_epochs ib rng T pad s1 es = (s2, ys2, e2)"
        by (cases "run_epochs ib rng T pad s1 es")
      from 2(2) None have eq: "ys = ys1 @ ys2" by (simp add: rb re)
      have len: "length ys1 = length ?bs" using run_batches_sound(3) [OF rb] None by simp
      show ?thesis
      proof (cases "i < length ys1")
        case True
        with run_batches_sound(4) [OF rb, of i s0] len eq show ?thesis
          by (simp add: nth_append)
      next
        case False
        with 2(1) eq have "i - length ys1 < length ys2" by simp
        from Cons.IH(2) [OF this re, unfolded ds] False len eq show ?thesis
          by (simp add: nth_append)
      qed
    qed
  }
qed

lemma run_epochs_rng:
  assumes "\<forall>r r' n pad. ib r ds n pad True = ib r' ds n pad True"
    and "dataset s = ds"
  shows "run_epochs ib rng T pad s es = run_epochs ib rng' T pad s es"
  using assms(2)
proof (induction es arbitrary: s)
  case Nil
  then show ?case by simp
next
  case (Cons e es)
  from assms(1) Cons.prems
  have bs: "ib (rng e) (dataset s) batch_size pad True = ib (rng' e) (dataset s) batch_size pad True"
    by blast
  obtain s1 ys1 e1 where rb:
    "run_batches T s (ib (rng' e) (dataset s) batch_size pad True) = (s1, ys1, e1)"
    by (cases "run_batches T s (ib (rng' e) (dataset s) batch_size pad True)")
  have "dataset s1 = ds" using run_batches_sound(1) [OF rb] Cons.prems by simp
  from Cons.IH [OF this] show ?case by (simp add: bs rb)
qed

lemma data_generator_sound:
  assumes "data_generator ib rng T ds epochs predict pad = (s', ys, err)"
  shows "dataset s' = ds"
    and "length ys \<le> length (visited_batches ib rng ds epochs pad)"
    and "i < length ys \<Longrightarrow>
         \<exists>s1. loop_body T s0 (visited_batches ib rng ds epochs pad ! i) = Inr (s1, ys ! i)"
proof -
  note r = assms [unfolded data_generator_def]
  show "dataset s' = ds" using run_epochs_dataset [OF r] by simp
  show "length ys \<le> length (visited_batches ib rng ds epochs pad)"
    using run_epochs_sound(1) [OF r] by (simp add: visited_batches_def)
  show "\<exists>s1. loop_body T s0 (visited_batches ib rng ds epochs pad ! i) = Inr (s1, ys ! i)"
    if "i < length ys"
    using run_epochs_sound(2) [OF r that, of s0] by (simp add: visited_batches_def)
qed

lemma ex_run_eq:
  "data_generator ex_iterbatches ex_rng 2 ex_dataset 1 False True =
     (fst ex_run, fst (snd ex_run), snd (snd ex_run))"
  by (simp add: ex_run_def)

lemma ex_run_length: "length (fst (snd ex_run)) = 1"
  by code_simp

section \<open>The inputs fed to the network\<close>

lemma width_75: "width v = 75"
  by transfer simp

text \<open>
  C2, amended: every tuple of inputs that the generator yields consists of a feature matrix
  whose per-atom width is the fixed value 75, an integer degree-slice array with rows of
  width 2, an integer membership vector with one entry per atom, and a fixed number of
  integer adjacency-list arrays, exactly one per degree bucket from degree 1 up to the
  maximum degree 10: 10 arrays, the one for degree \<open>d\<close> with rows of width \<open>d\<close>.
\<close>

theorem data_generator_inputs_contract:
  fixes ib :: "'r \<Rightarrow> 'ds \<Rightarrow> nat \<Rightarrow> bool \<Rightarrow> bool \<Rightarrow> (atom_vec, 'w, 'i) batch list"
  assumes "data_generator ib rng T ds epochs predict pad = (s', ys, err)"
    and "i < length ys"
  shows "\<exists>F S M adjs.
           fst (ys ! i) = [FloatMat F, IntMat S, IntVec M] @ map IntMat adjs \<and>
           (\<forall>r \<in> set F. width r = 75) \<and> (\<forall>r \<in> set S. length r = 2) \<and>
           length M = length F \<and> length adjs = 10 \<and>
           (\<forall>d < 10. \<forall>r \<in> set (adjs ! d). length r = Suc d)"
proof -
  let ?X = "X_b (visited_batches ib rng ds epochs pad ! i)"
  let ?B = "agglomerate ?X"
  let ?adjs = "drop 1 (get_deg_adjacency_lists ?B)"
  from data_generator_sound(3) [OF assms(1,2)] obtain s1 where
    "loop_body T \<lparr>dataset = ds, multiConvMol = None, inputs = []\<rparr>
       (visited_batches ib rng ds epochs pad ! i) = Inr (s1, ys ! i)"
    by blast
  from loop_body_inputs(2) [OF this]
  have eq: "fst (ys ! i) = [FloatMat (get_atom_features ?B), IntMat (deg_slice ?B),
                            IntVec (membership ?B)] @ map IntMat ?adjs" .
  have F: "\<forall>r \<in> set (get_atom_features ?B). width r = 75"
    by (simp add: width_75)
  have S: "\<forall>r \<in> set (deg_slice ?B). length r = 2"
    using deg_slice_width by blast
  have M: "length (membership ?B) = length (get_atom_features ?B)"
    by (simp add: length_membership length_features)
  have len: "length ?adjs = 10"
    by (simp add: length_deg_adjacency_lists max_deg_def)
  have A: "length r = Suc d" if "d < 10" "r \<in> set (?adjs ! d)" for d r
  proof -
    from that have "Suc d \<le> max_deg" "r \<in> set (get_deg_adjacency_lists ?B ! Suc d)"
      by (simp_all add: max_deg_def length_deg_adjacency_lists)
    then show ?thesis by (rule deg_adj_width)
  qed
  from eq F S M len A show ?thesis by blast
qed

theorem data_generator_inputs_contract_witness:
  "\<exists>F S M adjs.
     fst (fst (snd ex_run) ! 0) = [FloatMat F, IntMat S, IntVec M] @ map IntMat adjs \<and>
     (\<forall>r \<in> set F. width r = 75) \<and> (\<forall>r \<in> set S. length r = 2) \<and>
     length M = length F \<and> length adjs = 10 \<and>
     (\<forall>d < 10. \<forall>r \<in> set (adjs ! d). length r = Suc d)"
proof -
  have i: "0 < length (fst (snd ex_run))" by (simp add: ex_run_length)
  show ?thesis by (rule data_generator_inputs_contract [OF ex_run_eq i])
qed

text \<open>
  C2 as stated fails: for the example dataset the generator yields one tuple, which holds
  13 arrays, 10 of them adjacency matrices, against 14 declared \<open>Input\<close> layers, 11 of them
  for adjacency lists.
\<close>

theorem data_generator_inputs_counterexample:
  "length (fst (snd ex_run)) = 1 \<and>
   length (fst (hd (fst (snd ex_run)))) = 13 \<and>
   length (drop 3 (fst (hd (fst (snd ex_run))))) = 10 \<and>
   length keras_inputs = 14 \<and> length deg_adjs = 11"
  by code_simp

section \<open>The labels are one-hot\<close>

lemma one_hot_row_2:
  "c < 2 \<Longrightarrow> one_hot_row 2 c = (if c = 0 then [1, 0] else [0, 1])"
  by (auto simp: one_hot_row_def numeral_2_eq_2 upt_rec)

lemma labels_eq:
  assumes h: "to_one_hot (flatten y) 2 = Inr h"
    and l: "reshape3 h T 2 = Inr l"
    and wf: "wf2 y" and sh: "shape2 y = (B, T)"
  shows "l = \<lparr>shape3 = (B, T, 2), data3 = map (map (one_hot_row 2)) (data2 y)\<rparr>"
    and "\<forall>r \<in> set (data2 y). \<forall>c \<in> set r. c < 2"
    and "0 < T"
proof -
  from wf sh have len: "length (data2 y) = B" and rows: "\<forall>r \<in> set (data2 y). length r = T"
    by (simp_all add: wf2_def)
  from h have hv: "h = \<lparr>shape2 = (length (flatten y), 2),
                         data2 = map (one_hot_row 2) (flatten y)\<rparr>"
    and rng: "\<not> list_ex (\<lambda>c. 2 \<le> c) (flatten y)"
    by (auto simp: to_one_hot_def split: if_splits)
  from rng show "\<forall>r \<in> set (data2 y). \<forall>c \<in> set r. c < 2"
    by (auto simp: list_ex_iff flatten_def not_le)
  from l show T: "0 < T"
    by (auto simp: reshape3_def Let_def split: if_splits)
  have flat: "length (flatten y) = B * T"
    using length_concat_const [OF rows] len by (simp add: flatten_def)
  have pairs: "chunks 2 (concat (map (one_hot_row 2) (flatten y))) =
               map (one_hot_row 2) (flatten y)"
    by (rule chunks_concat) (auto simp: one_hot_row_def)
  have blocks: "chunks T (map (one_hot_row 2) (flatten y)) =
                map (map (one_hot_row 2)) (data2 y)"
  proof -
    have "map (one_hot_row 2) (flatten y) = concat (map (map (one_hot_row 2)) (data2 y))"
      by (simp add: flatten_def map_concat)
    moreover have "chunks T (concat (map (map (one_hot_row 2)) (data2 y))) =
                   map (map (one_hot_row 2)) (data2 y)"
      by (rule chunks_concat [OF T]) (use rows in auto)
    ultimately show ?thesis by simp
  qed
  have "B * T * 2 div (T * 2) = B" using T by simp
  with l hv flat pairs blocks
  show "l = \<lparr>shape3 = (B, T, 2), data3 = map (map (one_hot_row 2)) (data2 y)\<rparr>"
    by (auto simp: reshape3_def Let_def split: if_splits)
qed

lemma ex_labels_wf: "wf2 (y_b (visited_batches ex_iterbatches ex_rng ex_dataset 1 True ! 0))"
  by code_simp

lemma ex_labels_shape:
  "shape2 (y_b (visited_batches ex_iterbatches ex_rng ex_dataset 1 True ! 0)) = (2, 2)"
  by code_simp

text \<open>
  C10: every labels array that the generator yields, for a batch whose \<open>y_b\<close> has shape
  \<open>(batch, n_tasks)\<close>, has shape \<open>(batch, n_tasks, 2)\<close>, and for every sample and task its
  pair is the one-hot row of the class: \<open>[1, 0]\<close> or \<open>[0, 1]\<close>, which sums to 1.
\<close>

theorem data_generator_labels_one_hot:
  assumes "data_generator ib rng n_tasks ds epochs predict pad = (s', ys, err)"
    and "i < length ys"
    and "wf2 (y_b (visited_batches ib rng ds epochs pad ! i))"
    and "shape2 (y_b (visited_batches ib rng ds epochs pad ! i)) = (n, n_tasks)"
  shows "\<exists>L. fst (snd (ys ! i)) = [L] \<and> wf3 L \<and> shape3 L = (n, n_tasks, 2) \<and>
             (\<forall>j < n. \<forall>t < n_tasks.
                data3 L ! j ! t =
                  one_hot_row 2 (data2 (y_b (visited_batches ib rng ds epochs pad ! i)) ! j ! t) \<and>
                (data3 L ! j ! t = [1, 0] \<or> data3 L ! j ! t = [0, 1]) \<and>
                sum_list (data3 L ! j ! t) = 1)"
proof -
  let ?y = "y_b (visited_batches ib rng ds epochs pad ! i)"
  let ?L = "\<lparr>shape3 = (n, n_tasks, 2), data3 = map (map (one_hot_row 2)) (data2 ?y)\<rparr>"
  from data_generator_sound(3) [OF assms(1,2)] obtain s1 where
    "loop_body n_tasks \<lparr>dataset = ds, multiConvMol = None, inputs = []\<rparr>
       (visited_batches ib rng ds epochs pad ! i) = Inr (s1, ys ! i)"
    by blast
  from loop_body_labels [OF this] obtain h l where
    h: "to_one_hot (flatten ?y) 2 = Inr h" and l: "reshape3 h n_tasks 2 = Inr l"
    and y: "fst (snd (ys ! i)) = [l]"
    by blast
  note lab = labels_eq [OF h l assms(3,4)]
  from assms(3,4) have len: "length (data2 ?y) = n"
    and rows: "\<And>r. r \<in> set (data2 ?y) \<Longrightarrow> length r = n_tasks"
    by (simp_all add: wf2_def)
  have eq: "fst (snd (ys ! i)) = [?L]" using y lab(1) by simp
  have wf: "wf3 ?L"
    using len rows by (auto simp: wf3_def one_hot_row_def)
  have ent: "data3 ?L ! j ! t = one_hot_row 2 (data2 ?y ! j ! t) \<and>
             (data3 ?L ! j ! t = [1, 0] \<or> data3 ?L ! j ! t = [0, 1]) \<and>
             sum_list (data3 ?L ! j ! t) = 1"
    if "j < n" "t < n_tasks" for j t
  proof -
    from that len have j: "j < length (data2 ?y)" by simp
    then have r: "data2 ?y ! j \<in> set (data2 ?y)" by simp
    with rows that have t: "t < length (data2 ?y ! j)" by simp
    then have "data2 ?y ! j ! t \<in> set (data2 ?y ! j)" by simp
    with lab(2) r have c: "data2 ?y ! j ! t < 2" by blast
    have "data3 ?L ! j ! t = one_hot_row 2 (data2 ?y ! j ! t)"
      using j t by simp
    with one_hot_row_2 [OF c] show ?thesis by auto
  qed
  have sh: "shape3 ?L = (n, n_tasks, 2)" by simp
  from eq wf sh ent show ?thesis by blast
qed

theorem data_generator_labels_one_hot_witness:
  "\<exists>L. fst (snd (fst (snd ex_run) ! 0)) = [L] \<and> wf3 L \<and> shape3 L = (2, 2, 2) \<and>
       (\<forall>j < 2. \<forall>t < 2.
          data3 L ! j ! t =
            one_hot_row 2
              (data2 (y_b (visited_batches ex_iterbatches ex_rng ex_dataset 1 True ! 0)) ! j ! t) \<and>
          (data3 L ! j ! t = [1, 0] \<or> data3 L ! j ! t = [0, 1]) \<and>
          sum_list (data3 L ! j ! t) = 1)"
proof -
  have i: "0 < length (fst (snd ex_run))" by (simp add: ex_run_length)
  show ?thesis
    by (rule data_generator_labels_one_hot [OF ex_run_eq i ex_labels_wf ex_labels_shape])
qed

section \<open>Each minibatch is assembled afresh\<close>

text \<open>
  C4: the inputs of the \<open>i\<close>-th yield are built from the molecules \<open>X_b\<close> of the \<open>i\<close>-th
  visited batch alone. Whatever state earlier passes have left in the local variables,
  running the assembly on these molecules overwrites \<open>multiConvMol\<close> with the batched
  graph of \<open>X_b\<close> and gives exactly the yielded inputs.
\<close>

theorem data_generator_rebuilds_batch:
  assumes "data_generator ib rng n_tasks ds epochs predict pad = (s', ys, err)"
    and "i < length ys"
  shows "i < length (visited_batches ib rng ds epochs pad) \<and>
         (\<forall>s0. \<exists>s1.
            assemble_inputs s0 (X_b (visited_batches ib rng ds epochs pad ! i)) = Inr s1 \<and>
            multiConvMol s1 = Some (agglomerate (X_b (visited_batches ib rng ds epochs pad ! i))) \<and>
            inputs s1 = fst (ys ! i))"
proof (intro conjI allI)
  show "i < length (visited_batches ib rng ds epochs pad)"
    using data_generator_sound(2) [OF assms(1)] assms(2) by simp
next
  fix s0
  let ?b = "visited_batches ib rng ds epochs pad ! i"
  from data_generator_sound(3) [OF assms(1,2), of s0] obtain s1 where
    lb: "loop_body n_tasks s0 ?b = Inr (s1, ys ! i)" by blast
  from loop_body_assemble [OF lb] assemble_inputs_multiConvMol [of s0 "X_b ?b" s1]
  show "\<exists>s1. assemble_inputs s0 (X_b ?b) = Inr s1 \<and>
              multiConvMol s1 = Some (agglomerate (X_b ?b)) \<and> inputs s1 = fst (ys ! i)"
    by simp
qed

theorem data_generator_rebuilds_batch_witness:
  "0 < length (visited_batches ex_iterbatches ex_rng ex_dataset 1 True) \<and>
   (\<exists>s1. assemble_inputs ex_state
            (X_b (visited_batches ex_iterbatches ex_rng ex_dataset 1 True ! 0)) = Inr s1 \<and>
          multiConvMol s1 =
            Some (agglomerate (X_b (visited_batches ex_iterbatches ex_rng ex_dataset 1 True ! 0))) \<and>
          inputs s1 = fst (fst (snd ex_run) ! 0))"
proof -
  have i: "0 < length (fst (snd ex_run))" by (simp add: ex_run_length)
  from data_generator_rebuilds_batch [OF ex_run_eq i] show ?thesis by blast
qed

section \<open>The generator ignores \<open>predict\<close> and is deterministic\<close>

text \<open>
  C9: the output of the generator does not depend on \<open>predict\<close>, and two runs on the same
  arguments yield the same sequence: the generator asks \<open>iterbatches\<close> for deterministic
  batches, so for an \<open>iterbatches\<close> that honours the flag the state of the random number
  generator does not matter either.
\<close>

theorem data_generator_predict_deterministic:
  "data_generator ib rng n_tasks ds epochs True pad_batches =
     data_generator ib rng n_tasks ds epochs False pad_batches \<and>
   ((\<forall>r r' n pad. ib r ds n pad True = ib r' ds n pad True) \<longrightarrow>
    data_generator ib rng n_tasks ds epochs predict pad_batches =
      data_generator ib rng' n_tasks ds epochs predict' pad_batches)"
proof (intro conjI impI)
  show "data_generator ib rng n_tasks ds epochs True pad_batches =
        data_generator ib rng n_tasks ds epochs False pad_batches"
    by (simp add: data_generator_def)
next
  assume det: "\<forall>r r' n pad. ib r ds n pad True = ib r' ds n pad True"
  show "data_generator ib rng n_tasks ds epochs predict pad_batches =
        data_generator ib rng' n_tasks ds epochs predict' pad_batches"
    unfolding data_generator_def
    by (rule run_epochs_rng [where ib = ib and ds = ds, OF det]) simp
qed

theorem data_generator_predict_deterministic_witness:
  "data_generator ex_iterbatches ex_rng 2 ex_dataset 3 True True =
     data_generator ex_iterbatches ex_rng 2 ex_dataset 3 False True \<and>
   data_generator ex_iterbatches ex_rng 2 ex_dataset 3 True True =
     data_generator ex_iterbatches Suc 2 ex_dataset 3 False True"
proof -
  have det: "\<forall>r r' n pad. ex_iterbatches r ex_dataset n pad True =
                          ex_iterbatches r' ex_dataset n pad True"
    by (simp add: ex_iterbatches_def)
  from data_generator_predict_deterministic
         [where ib = ex_iterbatches and ds = ex_dataset and rng = ex_rng and rng' = Suc
            and n_tasks = 2 and epochs = 3 and pad_batches = True and predict = True
            and predict' = False]
       det
  show ?thesis by blast
qed

end
